theory Spec2Isabelle
  imports
    Main
    "HOL-Library.Finite_Map"
    "HOL-Library.Char_ord"
    "HOL-Library.List_Lexorder"
begin

section \<open>Phonemes (class \<open>Phoneme\<close> of pyre.py)\<close>

text \<open>
  A \<open>Phoneme\<close> wraps one dictionary from feature names to Booleans. A Python dictionary
  is a finite map with pairwise distinct keys, so the field is a finite map. The loops
  of the class run over \<open>self.features.keys()\<close>; the order in which Python 2 hands out
  the keys is unspecified, so \<open>dict_keys\<close> fixes one enumeration (the sorted one) and the
  lemmas \<open>issubset_loop_iff\<close>, \<open>contradicts_loop_iff\<close> and \<open>contradictsi_loop_iff\<close>
  below show that the result of each loop is the same for every enumeration.
\<close>

record phoneme =
  features :: "(string, bool) fmap"

definition Phoneme :: "(string, bool) fmap \<Rightarrow> phoneme" where
  \<comment> \<open>\<open>Phoneme(features)\<close> with the defaults \<open>plus=set()\<close>, \<open>minus=set()\<close>\<close>
  "Phoneme fs = \<lparr>features = fs\<rparr>"

definition dict_keys :: "(string, bool) fmap \<Rightarrow> string list" where
  "dict_keys d = sorted_list_of_fset (fmdom d)"

definition getitem :: "phoneme \<Rightarrow> string \<Rightarrow> bool option" where
  \<comment> \<open>\<open>__getitem__\<close>: the sign of the feature, \<open>None\<close> on \<open>KeyError\<close>\<close>
  "getitem self key = fmlookup (features self) key"

fun issubset_loop :: "string list \<Rightarrow> phoneme \<Rightarrow> phoneme \<Rightarrow> bool" where
  "issubset_loop [] self other = True"
| "issubset_loop (feature # rest) self other =
     (if feature |\<in>| fmdom (features other)
      then (if getitem self feature \<noteq> getitem other feature then False
            else issubset_loop rest self other)
      else False)"

definition issubset :: "phoneme \<Rightarrow> phoneme \<Rightarrow> bool" where
  "issubset self other = issubset_loop (dict_keys (features self)) self other"

definition le :: "phoneme \<Rightarrow> phoneme \<Rightarrow> bool" where
  \<comment> \<open>\<open>__le__\<close>; every value of the model is a \<open>Phoneme\<close>, so \<open>isinstance\<close> holds\<close>
  "le self other = (True \<and> issubset self other)"

definition phoneme_eq :: "phoneme \<Rightarrow> phoneme \<Rightarrow> bool" where
  \<comment> \<open>\<open>__eq__\<close>\<close>
  "phoneme_eq self other =
     (if fcard (fmdom (features self)) \<noteq> fcard (fmdom (features other)) then False
      else le self other)"

fun contradictsi_loop :: "string list \<Rightarrow> phoneme \<Rightarrow> (string, bool) fmap \<Rightarrow> bool" where
  "contradictsi_loop [] self fs = False"
| "contradictsi_loop (feature # rest) self fs =
     (if feature |\<in>| fmdom fs \<and> getitem self feature \<noteq> fmlookup fs feature then True
      else contradictsi_loop rest self fs)"

definition contradictsi :: "phoneme \<Rightarrow> (string, bool) fmap \<Rightarrow> bool" where
  "contradictsi self fs = contradictsi_loop (dict_keys (features self)) self fs"

fun contradicts_loop :: "string list \<Rightarrow> phoneme \<Rightarrow> phoneme \<Rightarrow> bool" where
  "contradicts_loop [] self other = False"
| "contradicts_loop (feature # rest) self other =
     (if feature |\<in>| fmdom (features other) \<and> getitem self feature \<noteq> getitem other feature
      then True
      else contradicts_loop rest self other)"

definition contradicts :: "phoneme \<Rightarrow> phoneme \<Rightarrow> bool" where
  "contradicts self other = contradicts_loop (dict_keys (features self)) self other"

definition updatei :: "phoneme \<Rightarrow> (string, bool) fmap \<Rightarrow> phoneme" where
  \<comment> \<open>\<open>self.features.update(features)\<close>: the argument's entries win\<close>
  "updatei self fs = self\<lparr>features := features self ++\<^sub>f fs\<rparr>"

definition update :: "phoneme \<Rightarrow> phoneme \<Rightarrow> phoneme" where
  "update self other = self\<lparr>features := features self ++\<^sub>f features other\<rparr>"

text \<open>
  What the program writes: the warning of \<open>edit\<close> on the error stream, the lines
  that \<open>add_constraint\<close> prints, kept as the four phonemes that the line renders, and
  the line \<open>symbol = phoneme\<close> printed after a symbol is defined.
\<close>

datatype event =
    Warning_inconsistent_update
  | Print_le phoneme phoneme phoneme phoneme
  | Print_symbol string phoneme

definition edit :: "phoneme \<Rightarrow> phoneme \<Rightarrow> phoneme \<times> event list" where
  "edit self other =
     (if contradicts self other then (self, [Warning_inconsistent_update])
      else (update self other, []))"

definition editi :: "phoneme \<Rightarrow> (string, bool) fmap \<Rightarrow> phoneme \<times> event list" where
  "editi self fs =
     (if contradictsi self fs then (self, [Warning_inconsistent_update])
      else (updatei self fs, []))"

section \<open>The dictionary of constraints (\<open>constraints\<close> and \<open>add_constraint\<close>)\<close>

text \<open>
  \<open>constraints\<close> is a dictionary from antecedent phonemes to consequent phonemes.
  \<open>add_constraint\<close> breaks out of its scan, so the order in which the keys are visited
  matters: the dictionary is an association list, visited from the head, whose keys are
  pairwise different under \<open>__eq__\<close> (\<open>wf_store\<close> below). Looking a key up compares
  it with \<open>__eq__\<close>; a key that is not there raises \<open>KeyError\<close>. In this section
  \<open>__hash__\<close> is left out: a key is found whenever an equal key is stored, and a new
  key goes to the end of the list. The theorems about one call hold for every list, so
  for every order of the dictionary that the call finds. The next section adds the hash
  of the keys; the properties of several calls in a row are stated there, over every
  order in which each call may find the dictionary.
\<close>

datatype error = KeyError

type_synonym store = "(phoneme \<times> phoneme) list"

fun contains :: "store \<Rightarrow> phoneme \<Rightarrow> bool" where
  \<comment> \<open>\<open>key in constraints\<close>\<close>
  "contains [] key = False"
| "contains ((a, c) # cs) key = (if phoneme_eq a key then True else contains cs key)"

fun getitem_store :: "store \<Rightarrow> phoneme \<Rightarrow> error + phoneme" where
  \<comment> \<open>\<open>constraints[key]\<close>\<close>
  "getitem_store [] key = Inl KeyError"
| "getitem_store ((a, c) # cs) key = (if phoneme_eq a key then Inr c else getitem_store cs key)"

fun delitem :: "store \<Rightarrow> phoneme \<Rightarrow> error + store" where
  \<comment> \<open>\<open>del constraints[key]\<close>\<close>
  "delitem [] key = Inl KeyError"
| "delitem ((a, c) # cs) key =
     (if phoneme_eq a key then Inr cs
      else (case delitem cs key of Inl e \<Rightarrow> Inl e | Inr cs' \<Rightarrow> Inr ((a, c) # cs')))"

fun setitem :: "store \<Rightarrow> phoneme \<Rightarrow> phoneme \<Rightarrow> store" where
  \<comment> \<open>\<open>constraints[key] = value\<close>: the value of an equal key is replaced, a new key is added\<close>
  "setitem [] key value = [(key, value)]"
| "setitem ((a, c) # cs) key value =
     (if phoneme_eq a key then (a, value) # cs else (a, c) # setitem cs key value)"

text \<open>
  The loop \<open>for antecedent in constraints.copy()\<close>: the third argument is the list of
  the keys of the copy that are still to be visited, the fourth the dictionary itself,
  from which the consequent is read and the dominated rules are deleted. The result is
  the flag \<open>worthwhile\<close>, the dictionary and the printed lines. \<open>add_constraint\<close>
  then merges into the consequent stored for \<open>key\<close> with \<open>edit\<close>, which changes the
  stored phoneme in place, or adds the new pair.
\<close>

fun scan ::
  "phoneme \<Rightarrow> phoneme \<Rightarrow> phoneme list \<Rightarrow> store \<Rightarrow> error + (bool \<times> store \<times> event list)" where
  "scan key value [] constraints = Inr (True, constraints, [])"
| "scan key value (antecedent # rest) constraints =
     (case getitem_store constraints antecedent of
        Inl e \<Rightarrow> Inl e
      | Inr consequent \<Rightarrow>
          if le antecedent key \<and> le value consequent
          then Inr (False, constraints, [Print_le antecedent key value consequent])
          else if le key antecedent \<and> le consequent value
          then (case delitem constraints antecedent of
                  Inl e \<Rightarrow> Inl e
                | Inr constraints' \<Rightarrow>
                    (case scan key value rest constraints' of
                       Inl e \<Rightarrow> Inl e
                     | Inr (worthwhile, cs, out) \<Rightarrow>
                         Inr (worthwhile, cs, Print_le key antecedent consequent value # out)))
          else scan key value rest constraints)"

definition add_constraint ::
  "phoneme \<Rightarrow> phoneme \<Rightarrow> store \<Rightarrow> error + (store \<times> event list)" where
  "add_constraint key value constraints =
     (if \<not> contradicts key value
      then (case scan key value (map fst constraints) constraints of
              Inl e \<Rightarrow> Inl e
            | Inr (worthwhile, cs, out) \<Rightarrow>
                if worthwhile
                then (if contains cs key
                      then (case getitem_store cs key of
                              Inl e \<Rightarrow> Inl e
                            | Inr c \<Rightarrow> (case edit c value of
                                         (c', warning) \<Rightarrow> Inr (setitem cs key c', out @ warning)))
                      else Inr (setitem cs key value, out))
                else Inr (cs, out))
      else Inr (constraints, []))"

section \<open>The dictionary of constraints with the hash of its keys\<close>

text \<open>
  Python finds a key in a dictionary only when \<open>__hash__\<close> gives the same number for
  it as for a stored key and the two are equal under \<open>__eq__\<close>. \<open>Phoneme.__hash__\<close>
  combines the tuple of the keys and the tuple of the values of the feature dictionary,
  in the order in which that dictionary holds them, so two phonemes that are equal under
  \<open>__eq__\<close> can have different hashes (\<open>voice labial\<close> and \<open>labial voice\<close>), and
  then both can be keys of \<open>constraints\<close>. The finite map of a phoneme does not record
  that order, so a key of the dictionary is the pair of the number that \<open>__hash__\<close>
  returns for it and the phoneme; nothing is assumed about the number. The functions
  below are \<open>contains\<close>, \<open>getitem_store\<close>, \<open>delitem\<close>, \<open>setitem\<close>, \<open>scan\<close> and
  \<open>add_constraint\<close> again, with a stored key compared by hash and by \<open>__eq__\<close>
  (\<open>key_eq\<close>); the tests \<open>antecedent <= key\<close> and \<open>key <= antecedent\<close> of the scan
  look at the phonemes only. The keys of the dictionary are never changed after they are
  stored, so the hash of a stored key is the one it had when it was inserted.
\<close>

type_synonym hkey = "int \<times> phoneme"

type_synonym hstore = "(hkey \<times> phoneme) list"

definition key_eq :: "hkey \<Rightarrow> hkey \<Rightarrow> bool" where
  \<comment> \<open>the test of a dictionary lookup: the same hash, and equal under \<open>__eq__\<close>\<close>
  "key_eq stored key = (fst stored = fst key \<and> phoneme_eq (snd stored) (snd key))"

fun contains_hashed :: "hstore \<Rightarrow> hkey \<Rightarrow> bool" where
  \<comment> \<open>\<open>key in constraints\<close>\<close>
  "contains_hashed [] key = False"
| "contains_hashed ((k, c) # cs) key = (if key_eq k key then True else contains_hashed cs key)"

fun getitem_hashed :: "hstore \<Rightarrow> hkey \<Rightarrow> error + phoneme" where
  \<comment> \<open>\<open>constraints[key]\<close>\<close>
  "getitem_hashed [] key = Inl KeyError"
| "getitem_hashed ((k, c) # cs) key = (if key_eq k key then Inr c else getitem_hashed cs key)"

fun delitem_hashed :: "hstore \<Rightarrow> hkey \<Rightarrow> error + hstore" where
  \<comment> \<open>\<open>del constraints[key]\<close>\<close>
  "delitem_hashed [] key = Inl KeyError"
| "delitem_hashed ((k, c) # cs) key =
     (if key_eq k key then Inr cs
      else (case delitem_hashed cs key of Inl e \<Rightarrow> Inl e | Inr cs' \<Rightarrow> Inr ((k, c) # cs')))"

fun setitem_hashed :: "hstore \<Rightarrow> hkey \<Rightarrow> phoneme \<Rightarrow> hstore" where
  \<comment> \<open>\<open>constraints[key] = value\<close>: the stored key stays, a new key is added\<close>
  "setitem_hashed [] key value = [(key, value)]"
| "setitem_hashed ((k, c) # cs) key value =
     (if key_eq k key then (k, value) # cs else (k, c) # setitem_hashed cs key value)"

fun scan_hashed ::
  "phoneme \<Rightarrow> phoneme \<Rightarrow> hkey list \<Rightarrow> hstore \<Rightarrow> error + (bool \<times> hstore \<times> event list)" where
  "scan_hashed key value [] constraints = Inr (True, constraints, [])"
| "scan_hashed key value (antecedent # rest) constraints =
     (case getitem_hashed constraints antecedent of
        Inl e \<Rightarrow> Inl e
      | Inr consequent \<Rightarrow>
          if le (snd antecedent) key \<and> le value consequent
          then Inr (False, constraints, [Print_le (snd antecedent) key value consequent])
          else if le key (snd antecedent) \<and> le consequent value
          then (case delitem_hashed constraints antecedent of
                  Inl e \<Rightarrow> Inl e
                | Inr constraints' \<Rightarrow>
                    (case scan_hashed key value rest constraints' of
                       Inl e \<Rightarrow> Inl e
                     | Inr (worthwhile, cs, out) \<Rightarrow>
                         Inr (worthwhile, cs,
                              Print_le key (snd antecedent) consequent value # out)))
          else scan_hashed key value rest constraints)"

definition add_constraint_hashed ::
  "hkey \<Rightarrow> phoneme \<Rightarrow> hstore \<Rightarrow> error + (hstore \<times> event list)" where
  "add_constraint_hashed key value constraints =
     (if \<not> contradicts (snd key) value
      then (case scan_hashed (snd key) value (map fst constraints) constraints of
              Inl e \<Rightarrow> Inl e
            | Inr (worthwhile, cs, out) \<Rightarrow>
                if worthwhile
                then (if contains_hashed cs key
                      then (case getitem_hashed cs key of
                              Inl e \<Rightarrow> Inl e
                            | Inr c \<Rightarrow> (case edit c value of
                                         (c', warning) \<Rightarrow>
                                           Inr (setitem_hashed cs key c', out @ warning)))
                      else Inr (setitem_hashed cs key value, out))
                else Inr (cs, out))
      else Inr (constraints, []))"

section \<open>The dictionary of symbols (\<open>symbols\<close>, \<open>p_line_features\<close>, \<open>p_line_new_symbols\<close>)\<close>

text \<open>
  Both grammar actions run the same loop over the symbol names of the line: a symbol
  that is not yet in \<open>symbols\<close> is bound to the empty phoneme, the delta is merged
  into the stored phoneme with \<open>edit\<close>, and the symbol is printed. The order of the
  names only decides the order of the printed lines.
\<close>

type_synonym symbols = "string \<rightharpoonup> phoneme"

definition define_symbol ::
  "symbols \<Rightarrow> string \<Rightarrow> phoneme \<Rightarrow> symbols \<times> event list" where
  "define_symbol symbols symbol delta =
     (let current = (case symbols symbol of None \<Rightarrow> Phoneme fmempty | Some p \<Rightarrow> p)
      in case edit current delta of
           (p, warning) \<Rightarrow> (symbols(symbol \<mapsto> p), warning @ [Print_symbol symbol p]))"

fun define_symbols ::
  "symbols \<Rightarrow> string list \<Rightarrow> phoneme \<Rightarrow> symbols \<times> event list" where
  "define_symbols symbols [] delta = (symbols, [])"
| "define_symbols symbols (symbol # rest) delta =
     (case define_symbol symbols symbol delta of
        (symbols', out) \<Rightarrow>
          (case define_symbols symbols' rest delta of
             (symbols'', out') \<Rightarrow> (symbols'', out @ out')))"

section \<open>Notions used to state the properties\<close>

text \<open>
  A rule \<open>r\<close> dominates a rule \<open>r'\<close> when its antecedent is broader or equal and
  its consequent at least as strong. A store is a minimal cover when no entry dominates
  an entry at another position.
\<close>

definition dominates :: "phoneme \<times> phoneme \<Rightarrow> phoneme \<times> phoneme \<Rightarrow> bool" where
  "dominates r r' = (le (fst r) (fst r') \<and> le (snd r') (snd r))"

fun minimal_cover :: "store \<Rightarrow> bool" where
  "minimal_cover [] = True"
| "minimal_cover (r # rs) =
     (list_all (\<lambda>r'. \<not> dominates r r' \<and> \<not> dominates r' r) rs \<and> minimal_cover rs)"

fun wf_store :: "store \<Rightarrow> bool" where
  "wf_store [] = True"
| "wf_store ((a, c) # cs) = (\<not> contains cs a \<and> wf_store cs)"

text \<open>
  The scan of \<open>add_constraint\<close> read as a function of the list of entries: what the
  loop returns for \<open>worthwhile\<close>, the entries it leaves in the dictionary and what it
  prints. Lemma \<open>scan_eq\<close> shows that on a dictionary (pairwise different keys) the
  loop \<open>scan\<close> never raises \<open>KeyError\<close> and returns exactly this.
\<close>

fun scan_list :: "phoneme \<Rightarrow> phoneme \<Rightarrow> store \<Rightarrow> bool \<times> store \<times> event list" where
  "scan_list key value [] = (True, [], [])"
| "scan_list key value (r # rest) =
     (if dominates r (key, value)
      then (False, r # rest, [Print_le (fst r) key value (snd r)])
      else if dominates (key, value) r
      then (case scan_list key value rest of
              (w, cs, out) \<Rightarrow> (w, cs, Print_le key (fst r) (snd r) value # out))
      else (case scan_list key value rest of (w, cs, out) \<Rightarrow> (w, r # cs, out)))"

text \<open>
  The stores that a session can build, hashes left out: the empty dictionary, and the
  result of every call of \<open>add_constraint\<close> on such a store.
\<close>

inductive reachable :: "store \<Rightarrow> bool" where
  reachable_empty: "reachable []"
| reachable_step:
    "reachable cs \<Longrightarrow> add_constraint key value cs = Inr (cs', out) \<Longrightarrow> reachable cs'"

text \<open>
  The same notions for the dictionary with hashed keys. \<open>rule_of\<close> forgets the hash of
  an entry; \<open>wf_hstore\<close> says that no two stored keys have the same hash and are equal,
  which is what a Python dictionary guarantees; \<open>scan_entries\<close> is the scan read as a
  function of the list of entries. Each call scans \<open>constraints.copy()\<close>, a dictionary
  built anew, and Python 2 does not promise to visit the keys of the copy in the order of
  the call before: a store that a session can build is the empty dictionary, the result
  of a call of \<open>add_constraint_hashed\<close> on such a store, or such a store with the same
  entries in another order.
\<close>

definition rule_of :: "hkey \<times> phoneme \<Rightarrow> phoneme \<times> phoneme" where
  "rule_of entry = (snd (fst entry), snd entry)"


fun wf_hstore :: "hstore \<Rightarrow> bool" where
  "wf_hstore [] = True"
| "wf_hstore ((k, c) # cs) = (\<not> contains_hashed cs k \<and> wf_hstore cs)"

fun scan_entries :: "phoneme \<Rightarrow> phoneme \<Rightarrow> hstore \<Rightarrow> bool \<times> hstore \<times> event list" where
  "scan_entries key value [] = (True, [], [])"
| "scan_entries key value (e # rest) =
     (if dominates (rule_of e) (key, value)
      then (False, e # rest, [Print_le (snd (fst e)) key value (snd e)])
      else if dominates (key, value) (rule_of e)
      then (case scan_entries key value rest of
              (w, cs, out) \<Rightarrow> (w, cs, Print_le key (snd (fst e)) (snd e) value # out))
      else (case scan_entries key value rest of (w, cs, out) \<Rightarrow> (w, e # cs, out)))"

inductive reachable_hashed :: "hstore \<Rightarrow> bool" where
  reachable_hashed_empty: "reachable_hashed []"
| reachable_hashed_step:
    "reachable_hashed cs \<Longrightarrow> add_constraint_hashed key value cs = Inr (cs', out) \<Longrightarrow>
     reachable_hashed cs'"
| reachable_hashed_reorder:
    "reachable_hashed cs \<Longrightarrow> set cs' = set cs \<Longrightarrow> length cs' = length cs \<Longrightarrow>
     reachable_hashed cs'"

section \<open>Phonemes used in the examples\<close>

abbreviation voice :: phoneme where "voice \<equiv> Phoneme (fmap_of_list [(''voice'', True)])"
abbreviation unvoiced_nasal :: phoneme where
  "unvoiced_nasal \<equiv> Phoneme (fmap_of_list [(''voice'', False), (''nasal'', True)])"
abbreviation nasal :: phoneme where "nasal \<equiv> Phoneme (fmap_of_list [(''nasal'', True)])"
abbreviation sonorant :: phoneme where "sonorant \<equiv> Phoneme (fmap_of_list [(''sonorant'', True)])"
abbreviation voice_labial :: phoneme where
  "voice_labial \<equiv> Phoneme (fmap_of_list [(''voice'', True), (''labial'', True)])"
abbreviation voice_coronal :: phoneme where
  "voice_coronal \<equiv> Phoneme (fmap_of_list [(''voice'', True), (''coronal'', True)])"
abbreviation nasal_sonorant :: phoneme where
  "nasal_sonorant \<equiv> Phoneme (fmap_of_list [(''nasal'', True), (''sonorant'', True)])"

abbreviation denasal_labial :: phoneme where
  "denasal_labial \<equiv> Phoneme (fmap_of_list [(''nasal'', False), (''labial'', True)])"


section \<open>Facts about phonemes\<close>

lemma getitem_dom: "(f |\<in>| fmdom (features p)) = (getitem p f \<noteq> None)"
  by (simp add: getitem_def fmlookup_dom_iff)

lemma issubset_loop_iff:
  "issubset_loop ks self other =
     (\<forall>f \<in> set ks. f |\<in>| fmdom (features other) \<and> getitem self f = getitem other f)"
  by (induction ks) auto

lemma issubset_iff:
  "issubset self other =
     (\<forall>f. f |\<in>| fmdom (features self) \<longrightarrow>
        fmlookup (features other) f = fmlookup (features self) f)"
proof -
  have "issubset self other =
     (\<forall>f. f |\<in>| fmdom (features self) \<longrightarrow> 
        f |\<in>| fmdom (features other) \<and> fmlookup (features self) f = fmlookup (features other) f)"
    by (simp add: issubset_def dict_keys_def issubset_loop_iff Ball_def getitem_def)
  also have "\<dots> = (\<forall>f. f |\<in>| fmdom (features self) \<longrightarrow>
        fmlookup (features other) f = fmlookup (features self) f)"
    by (metis fmlookup_dom_iff)
  finally show ?thesis .
qed

lemma contradictsi_loop_iff:
  "contradictsi_loop ks self fs =
     (\<exists>f \<in> set ks. f |\<in>| fmdom fs \<and> getitem self f \<noteq> fmlookup fs f)"
  by (induction ks) auto

lemma contradicts_loop_iff:
  "contradicts_loop ks self other =
     (\<exists>f \<in> set ks. f |\<in>| fmdom (features other) \<and> getitem self f \<noteq> getitem other f)"
  by (induction ks) auto

lemma opposite_signs:
  "(f |\<in>| fmdom m \<and> f |\<in>| fmdom n \<and> fmlookup m f \<noteq> fmlookup n f) =
     (\<exists>s. fmlookup m f = Some s \<and> fmlookup n f = Some (\<not> s))"
proof (cases "fmlookup m f")
  case None
  then show ?thesis by (simp add: fmlookup_dom_iff)
next
  case (Some s)
  note m = this
  show ?thesis
  proof (cases "fmlookup n f")
    case None
    with m show ?thesis by (simp add: fmlookup_dom_iff)
  next
    case (Some t)
    with m show ?thesis by (auto simp: fmlookup_dom_iff)
  qed
qed

lemma contradictsi_iff:
  "contradictsi self fs =
     (\<exists>f s. fmlookup (features self) f = Some s \<and> fmlookup fs f = Some (\<not> s))"
proof -
  have "contradictsi self fs =
      (\<exists>f. f |\<in>| fmdom (features self) \<and> f |\<in>| fmdom fs \<and>
            fmlookup (features self) f \<noteq> fmlookup fs f)"
    by (simp add: contradictsi_def dict_keys_def contradictsi_loop_iff Bex_def getitem_def)
  then show ?thesis
    by (simp only: opposite_signs)
qed

lemma contradicts_iff:
  "contradicts self other =
     (\<exists>f s. fmlookup (features self) f = Some s \<and> fmlookup (features other) f = Some (\<not> s))"
proof -
  have "contradicts self other =
      (\<exists>f. f |\<in>| fmdom (features self) \<and> f |\<in>| fmdom (features other) \<and>
            fmlookup (features self) f \<noteq> fmlookup (features other) f)"
    by (simp add: contradicts_def dict_keys_def contradicts_loop_iff Bex_def getitem_def)
  then show ?thesis
    by (simp only: opposite_signs)
qed

lemma le_iff:
  "le self other =
     (\<forall>f. f |\<in>| fmdom (features self) \<longrightarrow>
        fmlookup (features other) f = fmlookup (features self) f)"
  by (simp add: le_def issubset_iff)

lemma le_iff_Some:
  "le self other =
     (\<forall>f s. fmlookup (features self) f = Some s \<longrightarrow> fmlookup (features other) f = Some s)"
  unfolding le_iff by (metis fmlookup_dom_iff)

lemma le_refl: "le a a"
  by (simp add: le_iff)

lemma le_trans: "le a b \<Longrightarrow> le b c \<Longrightarrow> le a c"
  unfolding le_iff_Some by blast

lemma le_antisym: "le a b \<Longrightarrow> le b a \<Longrightarrow> a = b"
proof -
  assume ab: "le a b" and ba: "le b a"
  have "fmlookup (features a) f = fmlookup (features b) f" for f
  proof (cases "fmlookup (features a) f")
    case None
    show ?thesis
    proof (cases "fmlookup (features b) f")
      case None
      with \<open>fmlookup (features a) f = None\<close> show ?thesis by simp
    next
      case (Some s)
      with ba have "fmlookup (features a) f = Some s" unfolding le_iff_Some by blast
      with Some show ?thesis by simp
    qed
  next
    case (Some s)
    with ab have "fmlookup (features b) f = Some s" unfolding le_iff_Some by blast
    with Some show ?thesis by simp
  qed
  then have "features a = features b" by (rule fmap_ext)
  then show "a = b" by simp
qed

lemma le_fmdom: "le a b \<Longrightarrow> fmdom (features a) |\<subseteq>| fmdom (features b)"
proof
  fix f assume "le a b" and "f |\<in>| fmdom (features a)"
  then obtain s where "fmlookup (features a) f = Some s" by (auto simp: fmlookup_dom_iff)
  with \<open>le a b\<close> have "fmlookup (features b) f = Some s" unfolding le_iff_Some by blast
  then show "f |\<in>| fmdom (features b)" by (rule fmdomI)
qed

lemma phoneme_eq_iff: "phoneme_eq a b = (a = b)"
proof
  assume eq: "phoneme_eq a b"
  then have card: "fcard (fmdom (features a)) = fcard (fmdom (features b))" and ab: "le a b"
    by (simp_all add: phoneme_eq_def split: if_splits)
  from ab have sub: "fmdom (features a) |\<subseteq>| fmdom (features b)" by (rule le_fmdom)
  have "fmdom (features a) = fmdom (features b)"
  proof (rule ccontr)
    assume "fmdom (features a) \<noteq> fmdom (features b)"
    with sub have "fmdom (features a) |\<subset>| fmdom (features b)" by blast
    then have "fcard (fmdom (features a)) < fcard (fmdom (features b))"
      by (rule pfsubset_fcard_mono)
    with card show False by simp
  qed
  with ab have "le b a"
    unfolding le_iff by simp
  with ab show "a = b" by (rule le_antisym)
next
  assume "a = b"
  then show "phoneme_eq a b" by (simp add: phoneme_eq_def le_refl)
qed

lemma le_eval:
  "le a b = (\<forall>f \<in> fset (fmdom (features a)). fmlookup (features b) f = fmlookup (features a) f)"
  by (simp add: le_iff Ball_def)

lemma contradicts_eval:
  "contradicts a b =
     (\<exists>f \<in> fset (fmdom (features a)). f |\<in>| fmdom (features b) \<and>
         fmlookup (features a) f \<noteq> fmlookup (features b) f)"
  by (simp add: contradicts_def dict_keys_def contradicts_loop_iff getitem_def)

lemma contradictsi_eval:
  "contradictsi a fs =
     (\<exists>f \<in> fset (fmdom (features a)). f |\<in>| fmdom fs \<and> fmlookup (features a) f \<noteq> fmlookup fs f)"
  by (simp add: contradictsi_def dict_keys_def contradictsi_loop_iff getitem_def)

lemma contradicts_sym: "contradicts a b = contradicts b a"
proof -
  have "(\<exists>f s. fmlookup (features a) f = Some s \<and> fmlookup (features b) f = Some (\<not> s)) =
        (\<exists>f s. fmlookup (features b) f = Some s \<and> fmlookup (features a) f = Some (\<not> s))"
    (is "?L = ?R")
  proof
    assume ?L
    then obtain f s where "fmlookup (features a) f = Some s" "fmlookup (features b) f = Some (\<not> s)"
      by blast
    then have "fmlookup (features b) f = Some (\<not> s) \<and> fmlookup (features a) f = Some (\<not> \<not> s)"
      by simp
    then show ?R by blast
  next
    assume ?R
    then obtain f s where "fmlookup (features b) f = Some s" "fmlookup (features a) f = Some (\<not> s)"
      by blast
    then have "fmlookup (features a) f = Some (\<not> s) \<and> fmlookup (features b) f = Some (\<not> \<not> s)"
      by simp
    then show ?L by blast
  qed
  then show ?thesis by (simp only: contradicts_iff)
qed

lemma phoneme_eq_eval:
  "phoneme_eq a b = (fcard (fmdom (features a)) = fcard (fmdom (features b)) \<and> le a b)"
  by (simp add: phoneme_eq_def)

section \<open>Properties of the phoneme algebra\<close>

text \<open>
  C7. The relation \<open>\<le>\<close> on phonemes (\<open>__le__\<close>, that is \<open>issubset\<close>) holds
  exactly when every feature of the left phoneme occurs in the right one with the same
  sign, and it is a partial order: reflexive, antisymmetric up to \<open>__eq__\<close> (which is
  equality of the feature maps), and transitive.
\<close>

theorem le_partial_order:
  "le a b = (\<forall>f s. getitem a f = Some s \<longrightarrow> getitem b f = Some s) \<and>
   le a a \<and>
   (le a b \<and> le b a \<longrightarrow> phoneme_eq a b \<and> a = b) \<and>
   (le a b \<and> le b c \<longrightarrow> le a c)"
proof -
  have "le a b = (\<forall>f s. getitem a f = Some s \<longrightarrow> getitem b f = Some s)"
    by (simp add: le_iff_Some getitem_def)
  moreover have "le a a" by (rule le_refl)
  moreover have "le a b \<and> le b a \<longrightarrow> phoneme_eq a b \<and> a = b"
    by (simp add: phoneme_eq_iff le_antisym)
  moreover have "le a b \<and> le b c \<longrightarrow> le a c"
    using le_trans by blast
  ultimately show ?thesis by blast
qed

theorem le_partial_order_witness:
  "le (Phoneme (fmupd ''voice'' True fmempty)) (Phoneme (fmap_of_list [(''voice'', True)])) \<and>
   le (Phoneme (fmap_of_list [(''voice'', True)])) (Phoneme (fmupd ''voice'' True fmempty)) \<and>
   phoneme_eq (Phoneme (fmupd ''voice'' True fmempty)) (Phoneme (fmap_of_list [(''voice'', True)])) \<and>
   le (Phoneme (fmap_of_list [(''voice'', True)]))
      (Phoneme (fmap_of_list [(''voice'', True), (''nasal'', False)])) \<and>
   le (Phoneme (fmupd ''voice'' True fmempty))
      (Phoneme (fmap_of_list [(''voice'', True), (''nasal'', False)]))"
proof -
  let ?a = "Phoneme (fmupd ''voice'' True fmempty)"
  let ?b = "Phoneme (fmap_of_list [(''voice'', True)])"
  let ?c = "Phoneme (fmap_of_list [(''voice'', True), (''nasal'', False)])"
  have ab: "le ?a ?b" and ba: "le ?b ?a" and bc: "le ?b ?c"
    by (simp_all add: le_eval Phoneme_def)
  from le_partial_order [of ?a ?b ?c] ab ba bc show ?thesis by blast
qed

text \<open>
  C8. \<open>a.contradicts(b)\<close> returns true exactly when some feature carries opposite
  signs in \<open>a\<close> and \<open>b\<close>, and it is symmetric.
\<close>

theorem contradicts_symmetric:
  "contradicts a b = (\<exists>f s. getitem a f = Some s \<and> getitem b f = Some (\<not> s)) \<and>
   contradicts a b = contradicts b a"
  using contradicts_sym [of a b] by (simp add: contradicts_iff getitem_def)

text \<open>
  C9. \<open>p.contradicts(q)\<close> and \<open>p.contradictsi\<close> applied to the feature dictionary of
  \<open>q\<close> return the same Boolean.
\<close>

theorem contradicts_contradictsi_agree:
  "contradicts p q = contradictsi p (features q)"
  by (simp add: contradicts_iff contradictsi_iff)

text \<open>
  C10. The unchecked \<open>a.update(b)\<close> has no failing branch and writes no warning: it
  returns the phoneme in which every feature of \<open>b\<close> carries the sign it has in \<open>b\<close>
  (an opposite sign of \<open>a\<close> is overwritten) and every feature absent from \<open>b\<close> is as
  it was in \<open>a\<close>.
\<close>

theorem update_overwrites:
  "(\<forall>f s. getitem b f = Some s \<longrightarrow> getitem (update a b) f = Some s) \<and>
   (\<forall>f. getitem b f = None \<longrightarrow> getitem (update a b) f = getitem a f)"
  by (simp add: update_def getitem_def fmlookup_dom_iff)

theorem update_overwrites_witness:
  "getitem (Phoneme (fmap_of_list [(''voice'', False), (''nasal'', True)])) ''voice'' = Some False \<and>
   getitem (update (Phoneme (fmap_of_list [(''voice'', True), (''labial'', True)]))
                   (Phoneme (fmap_of_list [(''voice'', False), (''nasal'', True)]))) ''voice''
     = Some False \<and>
   getitem (Phoneme (fmap_of_list [(''voice'', False), (''nasal'', True)])) ''labial'' = None \<and>
   getitem (update (Phoneme (fmap_of_list [(''voice'', True), (''labial'', True)]))
                   (Phoneme (fmap_of_list [(''voice'', False), (''nasal'', True)]))) ''labial''
     = Some True"
proof -
  let ?a = "Phoneme (fmap_of_list [(''voice'', True), (''labial'', True)])"
  let ?b = "Phoneme (fmap_of_list [(''voice'', False), (''nasal'', True)])"
  have b1: "getitem ?b ''voice'' = Some False" and b2: "getitem ?b ''labial'' = None"
    and a2: "getitem ?a ''labial'' = Some True"
    by (simp_all add: getitem_def Phoneme_def)
  from update_overwrites [of ?b ?a] b1 b2 a2 show ?thesis by simp
qed

section \<open>Facts about the dictionary of constraints\<close>

lemma contains_iff: "contains cs k = (k \<in> fst ` set cs)"
  by (induction cs) (auto simp: phoneme_eq_iff)

lemma wf_store_iff: "wf_store cs = distinct (map fst cs)"
  by (induction cs) (force simp: contains_iff)+

lemma getitem_store_append:
  "k \<notin> fst ` set pre \<Longrightarrow> getitem_store (pre @ (k, c) # rest) k = Inr c"
  by (induction pre) (auto simp: phoneme_eq_iff)

lemma delitem_append:
  "k \<notin> fst ` set pre \<Longrightarrow> delitem (pre @ (k, c) # rest) k = Inr (pre @ rest)"
  by (induction pre) (auto simp: phoneme_eq_iff)

lemma scan_scan_list:
  "distinct (map fst (pre @ rest)) \<Longrightarrow>
   scan key value (map fst rest) (pre @ rest) =
     Inr (case scan_list key value rest of (w, cs, out) \<Rightarrow> (w, pre @ cs, out))"
proof (induction rest arbitrary: pre)
  case Nil
  then show ?case by simp
next
  case (Cons r rest)
  obtain a c where r: "r = (a, c)" by (cases r)
  from Cons.prems r have notin: "a \<notin> fst ` set pre" by auto
  have get: "getitem_store (pre @ (a, c) # rest) a = Inr c"
    using notin by (rule getitem_store_append)
  have del: "delitem (pre @ (a, c) # rest) a = Inr (pre @ rest)"
    using notin by (rule delitem_append)
  from Cons.prems r have d1: "distinct (map fst (pre @ rest))" by auto
  from Cons.prems r have d2: "distinct (map fst ((pre @ [(a, c)]) @ rest))" by auto
  have ih1: "scan key value (map fst rest) (pre @ rest) =
     Inr (case scan_list key value rest of (w, cs, out) \<Rightarrow> (w, pre @ cs, out))"
    using d1 by (rule Cons.IH)
  have ih2: "scan key value (map fst rest) (pre @ (a, c) # rest) =
     Inr (case scan_list key value rest of (w, cs, out) \<Rightarrow> (w, pre @ (a, c) # cs, out))"
    using Cons.IH [OF d2] by simp
  show ?case
    by (simp add: r get del ih1 ih2 dominates_def split: prod.splits)
qed

lemma scan_eq:
  "wf_store cs \<Longrightarrow> scan key value (map fst cs) cs = Inr (scan_list key value cs)"
  using scan_scan_list [of "[]" cs key "value"] by (simp add: wf_store_iff split: prod.splits)

lemma dominates_refl: "dominates r r"
  by (simp add: dominates_def le_refl)



lemma worthwhile_Nil: "fst (scan_list k v []) = True"
  by simp

lemma worthwhile_Cons:
  "fst (scan_list k v (r # rest)) =
     (if dominates r (k, v) then False else fst (scan_list k v rest))"
  by (simp split: prod.splits)

lemma kept_Nil: "fst (snd (scan_list k v [])) = []"
  by simp

lemma kept_Cons:
  "fst (snd (scan_list k v (r # rest))) =
     (if dominates r (k, v) then r # rest
      else if dominates (k, v) r then fst (snd (scan_list k v rest))
      else r # fst (snd (scan_list k v rest)))"
  by (simp split: prod.splits)

lemmas scan_list_proj = worthwhile_Nil worthwhile_Cons kept_Nil kept_Cons

lemma scan_list_worthwhile:
  "fst (scan_list k v cs) = (\<forall>r \<in> set cs. \<not> dominates r (k, v))"
  by (induction cs) (simp_all only: scan_list_proj, auto)

lemma scan_list_kept_filter:
  "\<forall>r \<in> set cs. \<not> dominates r (k, v) \<Longrightarrow>
   fst (snd (scan_list k v cs)) = filter (\<lambda>r. \<not> dominates (k, v) r) cs"
  by (induction cs) (simp_all add: scan_list_proj del: scan_list.simps)

lemma scan_list_kept_set: "set (fst (snd (scan_list k v cs))) \<subseteq> set cs"
  by (induction cs) (auto simp add: scan_list_proj simp del: scan_list.simps)

lemma scan_list_kept_distinct:
  "distinct (map fst cs) \<Longrightarrow> distinct (map fst (fst (snd (scan_list k v cs))))"
proof (induction cs)
  case Nil
  then show ?case by simp
next
  case (Cons r rest)
  have "fst ` set (fst (snd (scan_list k v rest))) \<subseteq> fst ` set rest"
    using scan_list_kept_set [of k v rest] by blast
  with Cons show ?case by (auto simp add: scan_list_proj simp del: scan_list.simps)
qed


lemma scan_list_abort_fixed:
  "\<not> fst (scan_list k v cs) \<Longrightarrow>
   \<not> fst (scan_list k v (fst (snd (scan_list k v cs)))) \<and>
   fst (snd (scan_list k v (fst (snd (scan_list k v cs))))) = fst (snd (scan_list k v cs))"
  by (induction cs) (auto simp add: scan_list_proj simp del: scan_list.simps)

lemma scan_list_nothing_fires:
  "\<forall>r \<in> set xs. \<not> dominates r (k, v) \<and> \<not> dominates (k, v) r \<Longrightarrow>
   fst (scan_list k v xs) \<and> fst (snd (scan_list k v xs)) = xs"
  by (induction xs) (auto simp add: scan_list_proj simp del: scan_list.simps)

lemma scan_list_first_subsumer:
  "\<forall>r \<in> set xs. \<not> dominates r (k, v) \<and> \<not> dominates (k, v) r \<Longrightarrow> dominates r0 (k, v) \<Longrightarrow>
   \<not> fst (scan_list k v (xs @ r0 # ys)) \<and> fst (snd (scan_list k v (xs @ r0 # ys))) = xs @ r0 # ys"
  by (induction xs) (auto simp add: scan_list_proj simp del: scan_list.simps)

lemma setitem_absent: "k \<notin> fst ` set cs \<Longrightarrow> setitem cs k v = cs @ [(k, v)]"
  by (induction cs) (auto simp: phoneme_eq_iff)

lemma setitem_present:
  "k \<notin> fst ` set xs \<Longrightarrow> setitem (xs @ (k, c) # ys) k c' = xs @ (k, c') # ys"
  by (induction xs) (auto simp: phoneme_eq_iff)

lemma key_split:
  "k \<in> fst ` set cs \<Longrightarrow> \<exists>xs c ys. cs = xs @ (k, c) # ys \<and> k \<notin> fst ` set xs"
proof (induction cs)
  case Nil
  then show ?case by simp
next
  case (Cons r cs)
  show ?case
  proof (cases "fst r = k")
    case True
    then have "r # cs = [] @ (k, snd r) # cs \<and> k \<notin> fst ` set []" by auto
    then show ?thesis by blast
  next
    case False
    with Cons.prems have "k \<in> fst ` set cs" by auto
    then obtain xs c ys where "cs = xs @ (k, c) # ys" "k \<notin> fst ` set xs"
      using Cons.IH by blast
    with False have "r # cs = (r # xs) @ (k, c) # ys \<and> k \<notin> fst ` set (r # xs)" by auto
    then show ?thesis by blast
  qed
qed

lemma le_update: "le v (update c v)"
  by (simp add: le_iff update_def)

lemma add_constraint_rejected:
  "contradicts k v \<Longrightarrow> add_constraint k v cs = Inr (cs, [])"
  by (simp add: add_constraint_def)

lemma add_constraint_aborted:
  "wf_store cs \<Longrightarrow> \<not> contradicts k v \<Longrightarrow> scan_list k v cs = (False, kept, out) \<Longrightarrow>
   add_constraint k v cs = Inr (kept, out)"
  by (simp add: add_constraint_def scan_eq)

lemma add_constraint_inserted:
  "wf_store cs \<Longrightarrow> \<not> contradicts k v \<Longrightarrow> scan_list k v cs = (True, kept, out) \<Longrightarrow>
   k \<notin> fst ` set kept \<Longrightarrow>
   add_constraint k v cs = Inr (kept @ [(k, v)], out)"
  by (simp add: add_constraint_def scan_eq contains_iff setitem_absent)

lemma add_constraint_present:
  "wf_store cs \<Longrightarrow> \<not> contradicts k v \<Longrightarrow> scan_list k v cs = (True, xs @ (k, c0) # ys, out) \<Longrightarrow>
   k \<notin> fst ` set xs \<Longrightarrow>
   add_constraint k v cs =
     (if contradicts c0 v then Inr (xs @ (k, c0) # ys, out @ [Warning_inconsistent_update])
      else Inr (xs @ (k, update c0 v) # ys, out))"
  by (simp add: add_constraint_def scan_eq contains_iff getitem_store_append setitem_present
      edit_def)

lemma add_constraint_result:
  assumes wf: "wf_store cs"
  obtains
    (rejected) "contradicts k v" "add_constraint k v cs = Inr (cs, [])"
  | (aborted) out where "\<not> contradicts k v" "\<not> fst (scan_list k v cs)"
      "add_constraint k v cs = Inr (fst (snd (scan_list k v cs)), out)"
  | (inserted) out where "\<not> contradicts k v" "fst (scan_list k v cs)"
      "k \<notin> fst ` set (fst (snd (scan_list k v cs)))"
      "add_constraint k v cs = Inr (fst (snd (scan_list k v cs)) @ [(k, v)], out)"
  | (conflict) xs c0 ys out where "\<not> contradicts k v" "fst (scan_list k v cs)"
      "fst (snd (scan_list k v cs)) = xs @ (k, c0) # ys" "k \<notin> fst ` set xs"
      "contradicts c0 v"
      "add_constraint k v cs = Inr (xs @ (k, c0) # ys, out)"
  | (merged) xs c0 ys out where "\<not> contradicts k v" "fst (scan_list k v cs)"
      "fst (snd (scan_list k v cs)) = xs @ (k, c0) # ys" "k \<notin> fst ` set xs"
      "\<not> contradicts c0 v"
      "add_constraint k v cs = Inr (xs @ (k, update c0 v) # ys, out)"
proof -
  obtain w kept out where sl: "scan_list k v cs = (w, kept, out)"
    by (cases "scan_list k v cs") auto
  then have w: "fst (scan_list k v cs) = w" and kept: "fst (snd (scan_list k v cs)) = kept"
    by simp_all
  show thesis
  proof (cases "contradicts k v")
    case True
    then have "add_constraint k v cs = Inr (cs, [])" by (rule add_constraint_rejected)
    with True show thesis by (rule rejected)
  next
    case nc: False
    show thesis
    proof (cases w)
      case False
      with sl have "scan_list k v cs = (False, kept, out)" by simp
      with wf nc have "add_constraint k v cs = Inr (kept, out)" by (rule add_constraint_aborted)
      with kept have r: "add_constraint k v cs = Inr (fst (snd (scan_list k v cs)), out)"
        by simp
      from False w have nw: "\<not> fst (scan_list k v cs)" by simp
      from nc nw r show thesis by (rule aborted)
    next
      case True
      with sl have slT: "scan_list k v cs = (True, kept, out)" by simp
      from True w have yw: "fst (scan_list k v cs)" by simp
      show thesis
      proof (cases "k \<in> fst ` set kept")
        case False
        with wf nc slT have "add_constraint k v cs = Inr (kept @ [(k, v)], out)"
          by (rule add_constraint_inserted)
        with kept have r: "add_constraint k v cs = Inr (fst (snd (scan_list k v cs)) @ [(k, v)], out)"
          by simp
        from False kept have n: "k \<notin> fst ` set (fst (snd (scan_list k v cs)))" by simp
        from nc yw n r show thesis by (rule inserted)
      next
        case in_kept: True
        from key_split [OF in_kept]
        obtain xs c0 ys where split: "kept = xs @ (k, c0) # ys" and notin: "k \<notin> fst ` set xs"
          by blast
        from slT split have sl': "scan_list k v cs = (True, xs @ (k, c0) # ys, out)"
          by simp
        note res = add_constraint_present [OF wf nc sl' notin]
        from split kept have split': "fst (snd (scan_list k v cs)) = xs @ (k, c0) # ys"
          by simp
        show thesis
        proof (cases "contradicts c0 v")
          case c: True
          with res have r: "add_constraint k v cs =
              Inr (xs @ (k, c0) # ys, out @ [Warning_inconsistent_update])" by simp
          from nc yw split' notin c r show thesis by (rule conflict)
        next
          case c: False
          with res have r: "add_constraint k v cs = Inr (xs @ (k, update c0 v) # ys, out)" by simp
          from nc yw split' notin c r show thesis by (rule merged)
        qed
      qed
    qed
  qed
qed


lemma kept_subset: "set (fst (snd (scan_list k v cs))) \<subseteq> set cs"
  by (rule scan_list_kept_set)





section \<open>Facts about the dictionary with hashed keys\<close>

lemma key_eq_iff: "key_eq k k' = (k = k')"
  by (cases k; cases k') (simp add: key_eq_def phoneme_eq_iff)

lemma contains_hashed_iff: "contains_hashed cs k = (k \<in> fst ` set cs)"
  by (induction cs) (auto simp: key_eq_iff)

lemma wf_hstore_iff: "wf_hstore cs = distinct (map fst cs)"
  by (induction cs) (force simp: contains_hashed_iff)+

lemma getitem_hashed_append:
  "k \<notin> fst ` set pre \<Longrightarrow> getitem_hashed (pre @ (k, c) # rest) k = Inr c"
  by (induction pre) (auto simp: key_eq_iff)

lemma delitem_hashed_append:
  "k \<notin> fst ` set pre \<Longrightarrow> delitem_hashed (pre @ (k, c) # rest) k = Inr (pre @ rest)"
  by (induction pre) (auto simp: key_eq_iff)

lemma scan_hashed_entries:
  "distinct (map fst (pre @ rest)) \<Longrightarrow>
   scan_hashed key value (map fst rest) (pre @ rest) =
     Inr (case scan_entries key value rest of (w, cs, out) \<Rightarrow> (w, pre @ cs, out))"
proof (induction rest arbitrary: pre)
  case Nil
  then show ?case by simp
next
  case (Cons r rest)
  obtain a c where r: "r = (a, c)" by (cases r)
  from Cons.prems r have notin: "a \<notin> fst ` set pre" by auto
  have get: "getitem_hashed (pre @ (a, c) # rest) a = Inr c"
    using notin by (rule getitem_hashed_append)
  have del: "delitem_hashed (pre @ (a, c) # rest) a = Inr (pre @ rest)"
    using notin by (rule delitem_hashed_append)
  from Cons.prems r have d1: "distinct (map fst (pre @ rest))" by auto
  from Cons.prems r have d2: "distinct (map fst ((pre @ [(a, c)]) @ rest))" by auto
  have ih1: "scan_hashed key value (map fst rest) (pre @ rest) =
     Inr (case scan_entries key value rest of (w, cs, out) \<Rightarrow> (w, pre @ cs, out))"
    using d1 by (rule Cons.IH)
  have ih2: "scan_hashed key value (map fst rest) (pre @ (a, c) # rest) =
     Inr (case scan_entries key value rest of (w, cs, out) \<Rightarrow> (w, pre @ (a, c) # cs, out))"
    using Cons.IH [OF d2] by simp
  show ?case
    by (simp add: r get del ih1 ih2 dominates_def rule_of_def split: prod.splits)
qed

lemma scan_hashed_eq:
  "wf_hstore cs \<Longrightarrow> scan_hashed key value (map fst cs) cs = Inr (scan_entries key value cs)"
  using scan_hashed_entries [of "[]" cs key "value"]
  by (simp add: wf_hstore_iff split: prod.splits)

lemma entries_worthwhile_Nil: "fst (scan_entries k v []) = True"
  by simp

lemma entries_worthwhile_Cons:
  "fst (scan_entries k v (e # rest)) =
     (if dominates (rule_of e) (k, v) then False else fst (scan_entries k v rest))"
  by (simp split: prod.splits)

lemma entries_kept_Nil: "fst (snd (scan_entries k v [])) = []"
  by simp

lemma entries_kept_Cons:
  "fst (snd (scan_entries k v (e # rest))) =
     (if dominates (rule_of e) (k, v) then e # rest
      else if dominates (k, v) (rule_of e) then fst (snd (scan_entries k v rest))
      else e # fst (snd (scan_entries k v rest)))"
  by (simp split: prod.splits)

lemmas scan_entries_proj =
  entries_worthwhile_Nil entries_worthwhile_Cons entries_kept_Nil entries_kept_Cons

lemma scan_entries_worthwhile:
  "fst (scan_entries k v cs) = (\<forall>e \<in> set cs. \<not> dominates (rule_of e) (k, v))"
  by (induction cs) (simp_all only: scan_entries_proj, auto)

lemma scan_entries_kept_filter:
  "\<forall>e \<in> set cs. \<not> dominates (rule_of e) (k, v) \<Longrightarrow>
   fst (snd (scan_entries k v cs)) = filter (\<lambda>e. \<not> dominates (k, v) (rule_of e)) cs"
  by (induction cs) (simp_all add: scan_entries_proj del: scan_entries.simps)

lemma scan_entries_kept_set: "set (fst (snd (scan_entries k v cs))) \<subseteq> set cs"
  by (induction cs) (auto simp add: scan_entries_proj simp del: scan_entries.simps)

lemma scan_entries_kept_distinct:
  "distinct (map fst cs) \<Longrightarrow> distinct (map fst (fst (snd (scan_entries k v cs))))"
proof (induction cs)
  case Nil
  then show ?case by simp
next
  case (Cons r rest)
  have "fst ` set (fst (snd (scan_entries k v rest))) \<subseteq> fst ` set rest"
    using scan_entries_kept_set [of k v rest] by blast
  with Cons show ?case by (auto simp add: scan_entries_proj simp del: scan_entries.simps)
qed



lemma scan_entries_first_subsumer:
  "\<forall>e \<in> set xs. \<not> dominates (rule_of e) (k, v) \<and> \<not> dominates (k, v) (rule_of e) \<Longrightarrow>
   dominates (rule_of e0) (k, v) \<Longrightarrow>
   \<not> fst (scan_entries k v (xs @ e0 # ys)) \<and>
   fst (snd (scan_entries k v (xs @ e0 # ys))) = xs @ e0 # ys"
  by (induction xs) (auto simp add: scan_entries_proj simp del: scan_entries.simps)



lemma setitem_hashed_absent:
  "k \<notin> fst ` set cs \<Longrightarrow> setitem_hashed cs k v = cs @ [(k, v)]"
  by (induction cs) (auto simp: key_eq_iff)

lemma setitem_hashed_present:
  "k \<notin> fst ` set xs \<Longrightarrow> setitem_hashed (xs @ (k, c) # ys) k c' = xs @ (k, c') # ys"
  by (induction xs) (auto simp: key_eq_iff)

lemma hkey_split:
  "k \<in> fst ` set cs \<Longrightarrow> \<exists>xs c ys. cs = xs @ (k, c) # ys \<and> k \<notin> fst ` set xs"
proof (induction cs)
  case Nil
  then show ?case by simp
next
  case (Cons r cs)
  show ?case
  proof (cases "fst r = k")
    case True
    then have "r # cs = [] @ (k, snd r) # cs \<and> k \<notin> fst ` set []" by auto
    then show ?thesis by blast
  next
    case False
    with Cons.prems have "k \<in> fst ` set cs" by auto
    then obtain xs c ys where "cs = xs @ (k, c) # ys" "k \<notin> fst ` set xs"
      using Cons.IH by blast
    with False have "r # cs = (r # xs) @ (k, c) # ys \<and> k \<notin> fst ` set (r # xs)" by auto
    then show ?thesis by blast
  qed
qed

lemma add_constraint_hashed_rejected:
  "contradicts (snd k) v \<Longrightarrow> add_constraint_hashed k v cs = Inr (cs, [])"
  by (simp add: add_constraint_hashed_def)

lemma add_constraint_hashed_aborted:
  "wf_hstore cs \<Longrightarrow> \<not> contradicts (snd k) v \<Longrightarrow>
   scan_entries (snd k) v cs = (False, kept, out) \<Longrightarrow>
   add_constraint_hashed k v cs = Inr (kept, out)"
  by (simp add: add_constraint_hashed_def scan_hashed_eq)

lemma add_constraint_hashed_inserted:
  "wf_hstore cs \<Longrightarrow> \<not> contradicts (snd k) v \<Longrightarrow>
   scan_entries (snd k) v cs = (True, kept, out) \<Longrightarrow> k \<notin> fst ` set kept \<Longrightarrow>
   add_constraint_hashed k v cs = Inr (kept @ [(k, v)], out)"
  by (simp add: add_constraint_hashed_def scan_hashed_eq contains_hashed_iff
      setitem_hashed_absent)

lemma add_constraint_hashed_present:
  "wf_hstore cs \<Longrightarrow> \<not> contradicts (snd k) v \<Longrightarrow>
   scan_entries (snd k) v cs = (True, xs @ (k, c0) # ys, out) \<Longrightarrow> k \<notin> fst ` set xs \<Longrightarrow>
   add_constraint_hashed k v cs =
     (if contradicts c0 v then Inr (xs @ (k, c0) # ys, out @ [Warning_inconsistent_update])
      else Inr (xs @ (k, update c0 v) # ys, out))"
  by (simp add: add_constraint_hashed_def scan_hashed_eq contains_hashed_iff
      getitem_hashed_append setitem_hashed_present edit_def)

lemma add_constraint_hashed_result:
  assumes wf: "wf_hstore cs"
  obtains
    (rejected) "contradicts (snd k) v" "add_constraint_hashed k v cs = Inr (cs, [])"
  | (aborted) out where "\<not> contradicts (snd k) v" "\<not> fst (scan_entries (snd k) v cs)"
      "add_constraint_hashed k v cs = Inr (fst (snd (scan_entries (snd k) v cs)), out)"
  | (inserted) out where "\<not> contradicts (snd k) v" "fst (scan_entries (snd k) v cs)"
      "k \<notin> fst ` set (fst (snd (scan_entries (snd k) v cs)))"
      "add_constraint_hashed k v cs =
         Inr (fst (snd (scan_entries (snd k) v cs)) @ [(k, v)], out)"
  | (conflict) xs c0 ys out where "\<not> contradicts (snd k) v" "fst (scan_entries (snd k) v cs)"
      "fst (snd (scan_entries (snd k) v cs)) = xs @ (k, c0) # ys" "k \<notin> fst ` set xs"
      "contradicts c0 v"
      "add_constraint_hashed k v cs = Inr (xs @ (k, c0) # ys, out)"
  | (merged) xs c0 ys out where "\<not> contradicts (snd k) v" "fst (scan_entries (snd k) v cs)"
      "fst (snd (scan_entries (snd k) v cs)) = xs @ (k, c0) # ys" "k \<notin> fst ` set xs"
      "\<not> contradicts c0 v"
      "add_constraint_hashed k v cs = Inr (xs @ (k, update c0 v) # ys, out)"
proof -
  obtain w kept out where sl: "scan_entries (snd k) v cs = (w, kept, out)"
    by (cases "scan_entries (snd k) v cs") auto
  then have w: "fst (scan_entries (snd k) v cs) = w"
    and kept: "fst (snd (scan_entries (snd k) v cs)) = kept"
    by simp_all
  show thesis
  proof (cases "contradicts (snd k) v")
    case True
    then have "add_constraint_hashed k v cs = Inr (cs, [])"
      by (rule add_constraint_hashed_rejected)
    with True show thesis by (rule rejected)
  next
    case nc: False
    show thesis
    proof (cases w)
      case False
      with sl have "scan_entries (snd k) v cs = (False, kept, out)" by simp
      with wf nc have "add_constraint_hashed k v cs = Inr (kept, out)"
        by (rule add_constraint_hashed_aborted)
      with kept have r: "add_constraint_hashed k v cs =
          Inr (fst (snd (scan_entries (snd k) v cs)), out)"
        by simp
      from False w have nw: "\<not> fst (scan_entries (snd k) v cs)" by simp
      from nc nw r show thesis by (rule aborted)
    next
      case True
      with sl have slT: "scan_entries (snd k) v cs = (True, kept, out)" by simp
      from True w have yw: "fst (scan_entries (snd k) v cs)" by simp
      show thesis
      proof (cases "k \<in> fst ` set kept")
        case False
        with wf nc slT have "add_constraint_hashed k v cs = Inr (kept @ [(k, v)], out)"
          by (rule add_constraint_hashed_inserted)
        with kept have r: "add_constraint_hashed k v cs =
            Inr (fst (snd (scan_entries (snd k) v cs)) @ [(k, v)], out)"
          by simp
        from False kept have n: "k \<notin> fst ` set (fst (snd (scan_entries (snd k) v cs)))"
          by simp
        from nc yw n r show thesis by (rule inserted)
      next
        case in_kept: True
        from hkey_split [OF in_kept]
        obtain xs c0 ys where split: "kept = xs @ (k, c0) # ys" and notin: "k \<notin> fst ` set xs"
          by blast
        from slT split have sl': "scan_entries (snd k) v cs = (True, xs @ (k, c0) # ys, out)"
          by simp
        note res = add_constraint_hashed_present [OF wf nc sl' notin]
        from split kept have split': "fst (snd (scan_entries (snd k) v cs)) = xs @ (k, c0) # ys"
          by simp
        show thesis
        proof (cases "contradicts c0 v")
          case c: True
          with res have r: "add_constraint_hashed k v cs =
              Inr (xs @ (k, c0) # ys, out @ [Warning_inconsistent_update])" by simp
          from nc yw split' notin c r show thesis by (rule conflict)
        next
          case c: False
          with res have r: "add_constraint_hashed k v cs =
              Inr (xs @ (k, update c0 v) # ys, out)" by simp
          from nc yw split' notin c r show thesis by (rule merged)
        qed
      qed
    qed
  qed
qed

lemma add_constraint_hashed_wf:
  assumes wf: "wf_hstore cs" and res: "add_constraint_hashed k v cs = Inr (cs', out')"
  shows "wf_hstore cs'"
proof -
  let ?kept = "fst (snd (scan_entries (snd k) v cs))"
  from wf have d: "distinct (map fst cs)" by (simp add: wf_hstore_iff)
  then have dk: "distinct (map fst ?kept)" by (rule scan_entries_kept_distinct)
  from wf show ?thesis
  proof (cases rule: add_constraint_hashed_result [where k = k and v = v])
    case rejected
    with res wf show ?thesis by simp
  next
    case (aborted out)
    with res have "cs' = ?kept" by simp
    with dk show ?thesis by (simp add: wf_hstore_iff)
  next
    case (inserted out)
    with res have "cs' = ?kept @ [(k, v)]" by simp
    with dk inserted(3) show ?thesis by (simp add: wf_hstore_iff)
  next
    case (conflict xs c0 ys out)
    with res have "cs' = ?kept" by simp
    with dk show ?thesis by (simp add: wf_hstore_iff)
  next
    case (merged xs c0 ys out)
    with res have "cs' = xs @ (k, update c0 v) # ys" by simp
    moreover from dk merged(3) have "distinct (map fst (xs @ (k, c0) # ys))" by simp
    ultimately show ?thesis by (simp add: wf_hstore_iff)
  qed
qed

lemma distinct_reorder:
  assumes d: "distinct xs" and s: "set ys = set xs" and l: "length ys = length xs"
  shows "distinct ys"
proof -
  from d have "card (set xs) = length xs" by (rule distinct_card)
  with s l have "card (set ys) = length ys" by simp
  then show ?thesis by (rule card_distinct)
qed

lemma wf_hstore_reorder:
  assumes wf: "wf_hstore cs" and s: "set cs' = set cs" and l: "length cs' = length cs"
  shows "wf_hstore cs'"
proof -
  from wf have "distinct (map fst cs)" by (simp add: wf_hstore_iff)
  moreover from s have "set (map fst cs') = set (map fst cs)" by simp
  moreover from l have "length (map fst cs') = length (map fst cs)" by simp
  ultimately have "distinct (map fst cs')" by (rule distinct_reorder)
  then show ?thesis by (simp add: wf_hstore_iff)
qed

lemma reachable_hashed_wf: "reachable_hashed cs \<Longrightarrow> wf_hstore cs"
proof (induction rule: reachable_hashed.induct)
  case reachable_hashed_empty
  show ?case by simp
next
  case (reachable_hashed_step cs key "value" cs' out)
  then show ?case by (simp add: add_constraint_hashed_wf)
next
  case (reachable_hashed_reorder cs cs')
  then show ?case by (simp add: wf_hstore_reorder)
qed

lemma rule_of_simp: "rule_of (k, c) = (snd k, c)"
  by (simp add: rule_of_def)

lemma hashed_evicts_dominated:
  assumes wf: "wf_hstore cs" and nc: "\<not> contradicts (snd k) v"
    and nosub: "\<forall>e \<in> set cs. \<not> dominates (rule_of e) (snd k, v)"
  shows "\<exists>cs' out. add_constraint_hashed k v cs = Inr (cs', out) \<and>
           (\<forall>e \<in> set cs. dominates (snd k, v) (rule_of e) \<longrightarrow> rule_of e \<notin> rule_of ` set cs')"
proof -
  let ?kept = "fst (snd (scan_entries (snd k) v cs))"
  from nosub have w: "fst (scan_entries (snd k) v cs)" by (simp add: scan_entries_worthwhile)
  from nosub have kept: "?kept = filter (\<lambda>e. \<not> dominates (snd k, v) (rule_of e)) cs"
    by (rule scan_entries_kept_filter)
  then have gone: "\<forall>e \<in> set cs. dominates (snd k, v) (rule_of e) \<longrightarrow>
      rule_of e \<notin> rule_of ` set ?kept"
    by auto
  have not_new: "rule_of e \<noteq> (snd k, v)" if "e \<in> set cs" for e
  proof
    assume "rule_of e = (snd k, v)"
    then have "dominates (rule_of e) (snd k, v)" by (simp add: dominates_refl)
    with nosub that show False by blast
  qed
  from wf show ?thesis
  proof (cases rule: add_constraint_hashed_result [where k = k and v = v])
    case rejected
    with nc show ?thesis by simp
  next
    case (aborted out)
    with w show ?thesis by simp
  next
    case (inserted out)
    from gone not_new
    have "\<forall>e \<in> set cs. dominates (snd k, v) (rule_of e) \<longrightarrow>
        rule_of e \<notin> rule_of ` set (?kept @ [(k, v)])"
      by (auto simp: rule_of_simp)
    with inserted(4) show ?thesis by blast
  next
    case (conflict xs c0 ys out)
    from gone conflict(3)
    have "\<forall>e \<in> set cs. dominates (snd k, v) (rule_of e) \<longrightarrow>
        rule_of e \<notin> rule_of ` set (xs @ (k, c0) # ys)"
      by simp
    with conflict(6) show ?thesis by blast
  next
    case (merged xs c0 ys out)
    have "\<forall>e \<in> set cs. dominates (snd k, v) (rule_of e) \<longrightarrow>
        rule_of e \<notin> rule_of ` set (xs @ (k, update c0 v) # ys)"
    proof (intro ballI impI)
      fix e assume e: "e \<in> set cs" and dom: "dominates (snd k, v) (rule_of e)"
      with gone have notkept: "rule_of e \<notin> rule_of ` set ?kept" by blast
      have "rule_of e \<noteq> (snd k, update c0 v)"
      proof
        assume eq: "rule_of e = (snd k, update c0 v)"
        with dom have "le (update c0 v) v" by (simp add: dominates_def)
        moreover have "le v (update c0 v)" by (rule le_update)
        ultimately have "update c0 v = v" by (rule le_antisym)
        with eq have "rule_of e = (snd k, v)" by simp
        with not_new [OF e] show False by simp
      qed
      with notkept merged(3) show "rule_of e \<notin> rule_of ` set (xs @ (k, update c0 v) # ys)"
        by (auto simp: rule_of_simp)
    qed
    with merged(6) show ?thesis by blast
  qed
qed






section \<open>Runs of \<open>add_constraint\<close> on concrete stores\<close>

lemmas eval_simps =
  le_eval contradicts_eval phoneme_eq_eval fcard_finsert_if Phoneme_def add_constraint_def
  edit_def update_def

lemma run_1: "add_constraint voice nasal [] = Inr ([(voice, nasal)], [])"
  by (simp add: eval_simps)


lemma run_3: "add_constraint voice_labial nasal [] = Inr ([(voice_labial, nasal)], [])"
  by (simp add: eval_simps)

lemma run_4:
  "add_constraint voice nasal [(voice_labial, nasal)] =
     Inr ([(voice, nasal)], [Print_le voice voice_labial nasal nasal])"
  by (simp add: eval_simps)

lemma run_5:
  "add_constraint voice_coronal nasal [(voice_labial, nasal)] =
     Inr ([(voice_labial, nasal), (voice_coronal, nasal)], [])"
  by (simp add: eval_simps)

lemma run_6:
  "add_constraint voice nasal [(voice_labial, nasal), (voice_coronal, nasal)] =
     Inr ([(voice, nasal)],
       [Print_le voice voice_labial nasal nasal, Print_le voice voice_coronal nasal nasal])"
  by (simp add: eval_simps)

lemma run_7:
  "add_constraint voice nasal [(voice, nasal)] =
     Inr ([(voice, nasal)], [Print_le voice voice nasal nasal])"
  by (simp add: eval_simps)

lemma run_8:
  "add_constraint voice unvoiced_nasal [(voice_labial, nasal)] = Inr ([(voice_labial, nasal)], [])"
  by (simp add: eval_simps)





lemma run_13:
  "add_constraint voice_labial nasal_sonorant [(voice, nasal)] =
     Inr ([(voice, nasal), (voice_labial, nasal_sonorant)], [])"
  by (simp add: eval_simps)

lemma run_14:
  "add_constraint voice sonorant [(voice, nasal), (voice_labial, nasal_sonorant)] =
     Inr ([(voice, update nasal sonorant), (voice_labial, nasal_sonorant)], [])"
  by (simp add: eval_simps)


lemmas eval_hashed_simps = eval_simps add_constraint_hashed_def key_eq_def

lemma hrun_1:
  "add_constraint_hashed (h, voice_labial) nasal [] = Inr ([((h, voice_labial), nasal)], [])"
  by (simp add: eval_hashed_simps)

lemma hrun_2:
  "add_constraint_hashed (h', voice) nasal [((h, voice_labial), nasal)] =
     Inr ([((h', voice), nasal)], [Print_le voice voice_labial nasal nasal])"
  by (simp add: eval_hashed_simps)

lemma hrun_3:
  "add_constraint_hashed (h', voice_coronal) nasal [((h, voice_labial), nasal)] =
     Inr ([((h, voice_labial), nasal), ((h', voice_coronal), nasal)], [])"
  by (simp add: eval_hashed_simps)

lemma hrun_4:
  "add_constraint_hashed (h'', voice) nasal
       [((h, voice_labial), nasal), ((h', voice_coronal), nasal)] =
     Inr ([((h'', voice), nasal)],
       [Print_le voice voice_labial nasal nasal, Print_le voice voice_coronal nasal nasal])"
  by (simp add: eval_hashed_simps)








lemma hrun_12:
  "add_constraint_hashed (1, voice) sonorant [((1, voice), nasal)] =
     Inr ([((1, voice), update nasal sonorant)], [])"
  by (simp add: eval_hashed_simps)

lemma hrun_13:
  "add_constraint_hashed (7, voice) sonorant [((1, voice), nasal)] =
     Inr ([((1, voice), nasal), ((7, voice), sonorant)], [])"
  by (simp add: eval_hashed_simps)

lemma reachable_two_rules:
  "reachable_hashed [((2, voice_labial), nasal), ((3, voice_coronal), nasal)]"
proof -
  have "reachable_hashed [((2, voice_labial), nasal)]"
    using reachable_hashed_empty hrun_1 by (rule reachable_hashed_step)
  then show ?thesis using hrun_3 by (rule reachable_hashed_step)
qed

section \<open>Properties of the dictionary of constraints\<close>







lemma kept_clean:
  assumes w: "fst (scan_list k v cs)"
  shows "\<forall>r \<in> set (fst (snd (scan_list k v cs))).
           \<not> dominates r (k, v) \<and> \<not> dominates (k, v) r"
proof -
  from w have nosub: "\<forall>r \<in> set cs. \<not> dominates r (k, v)" by (simp add: scan_list_worthwhile)
  then have "fst (snd (scan_list k v cs)) = filter (\<lambda>r. \<not> dominates (k, v) r) cs"
    by (rule scan_list_kept_filter)
  with nosub show ?thesis by simp
qed

lemma scan_list_triple:
  "fst (scan_list k v cs) = w \<Longrightarrow> fst (snd (scan_list k v cs)) = kept \<Longrightarrow>
   \<exists>out. scan_list k v cs = (w, kept, out)"
  by (cases "scan_list k v cs") simp

text \<open>
  C5. On every store that a session can build, in whatever order the dictionary is
  scanned and whatever the hashes of the keys are: when the assertion passes the guard
  (\<open>key\<close> does not contradict \<open>value\<close>) and the scan does not stop on a rule that
  subsumes it (no stored rule \<open>(a, c)\<close> has \<open>a \<le> key\<close> and \<open>value \<le> c\<close>), the call
  returns a store (no \<open>KeyError\<close>) from which every stored rule \<open>(a, c)\<close> with
  \<open>key \<le> a\<close> and \<open>c \<le> value\<close> is gone, however many there are: the scan goes on
  after a deletion. Inserting \<open>{voice:+, labial:+} => {nasal:+}\<close> and then
  \<open>{voice:+} => {nasal:+}\<close> into the empty store leaves the second rule only, and
  \<open>{voice:+} => {nasal:+}\<close> evicts both \<open>{voice:+, labial:+} => {nasal:+}\<close> and
  \<open>{voice:+, coronal:+} => {nasal:+}\<close> in one call.
\<close>

theorem insertion_evicts_every_dominated_rule:
  "(reachable_hashed cs \<and> \<not> contradicts (snd key) value \<and>
      (\<forall>e \<in> set cs. \<not> (le (snd (fst e)) (snd key) \<and> le value (snd e))) \<longrightarrow>
      (\<exists>cs' out. add_constraint_hashed key value cs = Inr (cs', out) \<and>
         (\<forall>e \<in> set cs. le (snd key) (snd (fst e)) \<and> le (snd e) value \<longrightarrow>
            rule_of e \<notin> rule_of ` set cs'))) \<and>
   (\<exists>out1 out2.
      add_constraint_hashed (h, voice_labial) nasal [] = Inr ([((h, voice_labial), nasal)], out1) \<and>
      add_constraint_hashed (h', voice) nasal [((h, voice_labial), nasal)] =
        Inr ([((h', voice), nasal)], out2)) \<and>
   (\<exists>out3.
      add_constraint_hashed (h'', voice) nasal
          [((h, voice_labial), nasal), ((h', voice_coronal), nasal)] =
        Inr ([((h'', voice), nasal)], out3))"
proof -
  have "\<exists>cs' out. add_constraint_hashed key value cs = Inr (cs', out) \<and>
         (\<forall>e \<in> set cs. le (snd key) (snd (fst e)) \<and> le (snd e) value \<longrightarrow>
            rule_of e \<notin> rule_of ` set cs')"
    if r: "reachable_hashed cs" and nc: "\<not> contradicts (snd key) value"
      and nosub: "\<forall>e \<in> set cs. \<not> (le (snd (fst e)) (snd key) \<and> le value (snd e))"
  proof -
    from r have wf: "wf_hstore cs" by (rule reachable_hashed_wf)
    from nosub have "\<forall>e \<in> set cs. \<not> dominates (rule_of e) (snd key, value)"
      by (simp add: dominates_def rule_of_def)
    with wf nc have "\<exists>cs' out. add_constraint_hashed key value cs = Inr (cs', out) \<and>
        (\<forall>e \<in> set cs. dominates (snd key, value) (rule_of e) \<longrightarrow>
           rule_of e \<notin> rule_of ` set cs')"
      by (rule hashed_evicts_dominated)
    then show ?thesis by (simp add: dominates_def rule_of_def)
  qed
  moreover have "\<exists>out1 out2.
      add_constraint_hashed (h, voice_labial) nasal [] = Inr ([((h, voice_labial), nasal)], out1) \<and>
      add_constraint_hashed (h', voice) nasal [((h, voice_labial), nasal)] =
        Inr ([((h', voice), nasal)], out2)"
    using hrun_1 hrun_2 by blast
  moreover have "\<exists>out3.
      add_constraint_hashed (h'', voice) nasal
          [((h, voice_labial), nasal), ((h', voice_coronal), nasal)] =
        Inr ([((h'', voice), nasal)], out3)"
    using hrun_4 by blast
  ultimately show ?thesis by blast
qed

theorem insertion_evicts_every_dominated_rule_witness:
  "reachable_hashed [((2, voice_labial), nasal), ((3, voice_coronal), nasal)] \<and>
   \<not> contradicts voice nasal \<and>
   \<not> (le voice_labial voice \<and> le nasal nasal) \<and>
   \<not> (le voice_coronal voice \<and> le nasal nasal) \<and>
   le voice voice_labial \<and> le voice voice_coronal \<and> le nasal nasal \<and>
   (\<exists>cs' out.
      add_constraint_hashed (1, voice) nasal
          [((2, voice_labial), nasal), ((3, voice_coronal), nasal)] = Inr (cs', out) \<and>
      (voice_labial, nasal) \<notin> rule_of ` set cs' \<and>
      (voice_coronal, nasal) \<notin> rule_of ` set cs')"
proof -
  let ?cs = "[((2, voice_labial), nasal), ((3, voice_coronal), nasal)] :: hstore"
  note r = reachable_two_rules
  have nc: "\<not> contradicts (snd (1 :: int, voice)) nasal" by (simp add: eval_simps)
  have n1: "\<not> (le voice_labial voice \<and> le nasal nasal)"
    and n2: "\<not> (le voice_coronal voice \<and> le nasal nasal)"
    by (simp_all add: eval_simps)
  have l: "le voice voice_labial \<and> le voice voice_coronal \<and> le nasal nasal"
    by (simp add: eval_simps)
  from n1 n2
  have all: "\<forall>e \<in> set ?cs. \<not> (le (snd (fst e)) (snd (1 :: int, voice)) \<and> le nasal (snd e))"
    by simp
  from insertion_evicts_every_dominated_rule [of ?cs "(1, voice)" nasal] r nc all
  obtain cs' out where res: "add_constraint_hashed (1, voice) nasal ?cs = Inr (cs', out)"
    and gone: "\<forall>e \<in> set ?cs. le (snd (1 :: int, voice)) (snd (fst e)) \<and> le (snd e) nasal \<longrightarrow>
        rule_of e \<notin> rule_of ` set cs'"
    by blast
  from gone l have "(voice_labial, nasal) \<notin> rule_of ` set cs' \<and>
      (voice_coronal, nasal) \<notin> rule_of ` set cs'"
    by (simp add: rule_of_def)
  with res r nc n1 n2 l show ?thesis by auto
qed

lemma le_update_self: "\<not> contradicts c v \<Longrightarrow> le c (update c v)"
proof -
  assume nc: "\<not> contradicts c v"
  have "fmlookup (features (update c v)) f = Some s" if c: "fmlookup (features c) f = Some s"
    for f s
  proof (cases "fmlookup (features v) f")
    case None
    then have "f |\<notin>| fmdom (features v)" by (rule fmdom_notI)
    with c show ?thesis by (simp add: update_def)
  next
    case (Some t)
    have "t = s"
    proof (rule ccontr)
      assume "t \<noteq> s"
      then have "t = (\<not> s)" by auto
      with Some c have "contradicts c v" unfolding contradicts_iff by blast
      with nc show False ..
    qed
    with Some have "fmlookup (features v) f = Some s" by simp
    moreover from this have "f |\<in>| fmdom (features v)" by (rule fmdomI)
    ultimately show ?thesis by (simp add: update_def)
  qed
  then show ?thesis unfolding le_iff_Some by blast
qed

lemma minimal_cover_iff:
  "distinct cs \<Longrightarrow>
   minimal_cover cs = (\<forall>r \<in> set cs. \<forall>r' \<in> set cs. r \<noteq> r' \<longrightarrow> \<not> dominates r r')"
proof (induction cs)
  case Nil
  then show ?case by simp
next
  case (Cons r cs)
  then have ih: "minimal_cover cs =
      (\<forall>r \<in> set cs. \<forall>r' \<in> set cs. r \<noteq> r' \<longrightarrow> \<not> dominates r r')"
    and notin: "r \<notin> set cs" by simp_all
  show ?case
    unfolding minimal_cover.simps ih list_all_iff using notin by auto
qed

lemma distinct_keys_distinct: "distinct (map fst cs) \<Longrightarrow> distinct cs"
  by (rule distinct_map [THEN iffD1, THEN conjunct1])

lemma minimal_cover_preserved_fresh_key:
  assumes wf: "wf_store cs" and min: "minimal_cover cs" and fresh: "\<not> contains cs k"
    and res: "add_constraint k v cs = Inr (cs', out')"
  shows "minimal_cover cs'"
proof -
  let ?kept = "fst (snd (scan_list k v cs))"
  from wf have dk: "distinct (map fst cs)" by (simp add: wf_store_iff)
  then have d: "distinct cs" by (rule distinct_keys_distinct)
  from dk have dkk: "distinct (map fst ?kept)" by (rule scan_list_kept_distinct)
  then have dkept: "distinct ?kept" by (rule distinct_keys_distinct)
  have sub: "set ?kept \<subseteq> set cs" by (rule scan_list_kept_set)
  from min d have pair: "\<forall>r \<in> set cs. \<forall>r' \<in> set cs. r \<noteq> r' \<longrightarrow> \<not> dominates r r'"
    by (simp add: minimal_cover_iff)
  with sub have pairk: "\<forall>r \<in> set ?kept. \<forall>r' \<in> set ?kept. r \<noteq> r' \<longrightarrow> \<not> dominates r r'"
    by blast
  with dkept have mink: "minimal_cover ?kept" by (simp add: minimal_cover_iff)
  from fresh sub have notin: "k \<notin> fst ` set ?kept" by (auto simp: contains_iff)
  from wf show ?thesis
  proof (cases rule: add_constraint_result [where k = k and v = v])
    case rejected
    with res min show ?thesis by simp
  next
    case (aborted out)
    with res mink show ?thesis by simp
  next
    case (inserted out)
    with res have cs': "cs' = ?kept @ [(k, v)]" by simp
    from inserted(2) have clean: "\<forall>r \<in> set ?kept. \<not> dominates r (k, v) \<and> \<not> dominates (k, v) r"
      by (rule kept_clean)
    from dkk notin have "distinct (map fst (?kept @ [(k, v)]))" by simp
    then have "distinct (?kept @ [(k, v)])" by (rule distinct_keys_distinct)
    moreover from pairk clean
    have "\<forall>r \<in> set (?kept @ [(k, v)]). \<forall>r' \<in> set (?kept @ [(k, v)]).
            r \<noteq> r' \<longrightarrow> \<not> dominates r r'"
      by auto
    ultimately show ?thesis unfolding cs' by (simp only: minimal_cover_iff)
  next
    case (conflict xs c0 ys out)
    with notin show ?thesis by simp
  next
    case (merged xs c0 ys out)
    with notin show ?thesis by simp
  qed
qed

lemma dominates_eval: "dominates (a, c) (a', c') = (le a a' \<and> le c' c)"
  by (simp add: dominates_def)




text \<open>
  C1. The claim is that after every call the store is a minimal cover: no stored rule
  is dominated by a rule at another position. The code does not keep this. A call whose
  antecedent is a key that is new to the store keeps a minimal cover minimal (lemma
  \<open>minimal_cover_preserved_fresh_key\<close>); a call whose antecedent already is a key merges
  the consequent into the stored one and does not scan again, and the merged rule can
  dominate another rule. The theorem runs the three calls \<open>voice => nasal\<close>,
  \<open>voice labial => nasal sonorant\<close>, \<open>voice => sonorant\<close> from the empty store: the
  store is a minimal cover after the second call and is not after the third.
\<close>

theorem merge_breaks_minimal_cover:
  "add_constraint voice nasal [] = Inr ([(voice, nasal)], []) \<and>
   add_constraint voice_labial nasal_sonorant [(voice, nasal)] =
     Inr ([(voice, nasal), (voice_labial, nasal_sonorant)], []) \<and>
   minimal_cover [(voice, nasal), (voice_labial, nasal_sonorant)] \<and>
   add_constraint voice sonorant [(voice, nasal), (voice_labial, nasal_sonorant)] =
     Inr ([(voice, update nasal sonorant), (voice_labial, nasal_sonorant)], []) \<and>
   reachable [(voice, update nasal sonorant), (voice_labial, nasal_sonorant)] \<and>
   le voice voice_labial \<and> le nasal_sonorant (update nasal sonorant) \<and>
   (voice, update nasal sonorant) \<noteq> (voice_labial, nasal_sonorant) \<and>
   \<not> minimal_cover [(voice, update nasal sonorant), (voice_labial, nasal_sonorant)]"
proof -
  have r: "reachable [(voice, update nasal sonorant), (voice_labial, nasal_sonorant)]"
  proof -
    have "reachable [(voice, nasal)]" using reachable_empty run_1 by (rule reachable_step)
    then have "reachable [(voice, nasal), (voice_labial, nasal_sonorant)]"
      using run_13 by (rule reachable_step)
    then show ?thesis using run_14 by (rule reachable_step)
  qed
  have m: "minimal_cover [(voice, nasal), (voice_labial, nasal_sonorant)]"
    by (simp add: dominates_eval le_eval Phoneme_def)
  have l: "le voice voice_labial \<and> le nasal_sonorant (update nasal sonorant)"
    by (simp add: le_eval Phoneme_def update_def)
  have ne: "(voice, update nasal sonorant) \<noteq> (voice_labial, nasal_sonorant)"
  proof
    assume "(voice, update nasal sonorant) = (voice_labial, nasal_sonorant)"
    then have "voice = voice_labial" by simp
    then have "le voice_labial voice" by (simp add: le_refl)
    then show False by (simp add: le_eval Phoneme_def)
  qed
  from l have "\<not> minimal_cover [(voice, update nasal sonorant), (voice_labial, nasal_sonorant)]"
    by (simp add: dominates_eval)
  with r m l ne run_1 run_13 run_14 show ?thesis by simp
qed

section \<open>Properties of the merge into the dictionary of symbols\<close>

text \<open>
  C2 (amended). When the delta contradicts the phoneme stored for a symbol, \<open>edit\<close>
  writes the warning and skips the whole update: the stored phoneme is returned as it
  was, and no feature of the delta is applied, conflicting or not.
\<close>

theorem edit_conflict_skips_whole_update:
  "contradicts self other \<Longrightarrow>
     edit self other = (self, [Warning_inconsistent_update]) \<and>
     (symbols symbol = Some self \<longrightarrow>
        define_symbol symbols symbol other =
          (symbols, [Warning_inconsistent_update, Print_symbol symbol self]))"
proof -
  assume c: "contradicts self other"
  then have e: "edit self other = (self, [Warning_inconsistent_update])"
    by (simp add: edit_def)
  have "define_symbol symbols symbol other =
          (symbols, [Warning_inconsistent_update, Print_symbol symbol self])"
    if "symbols symbol = Some self"
  proof -
    from that have "symbols(symbol \<mapsto> self) = symbols" by (rule map_upd_triv)
    with that e show ?thesis by (simp add: define_symbol_def)
  qed
  with e show ?thesis by blast
qed

theorem edit_conflict_skips_whole_update_witness:
  "contradicts nasal denasal_labial \<and>
   edit nasal denasal_labial = (nasal, [Warning_inconsistent_update]) \<and>
   [''m'' \<mapsto> nasal] ''m'' = Some nasal \<and>
   define_symbol [''m'' \<mapsto> nasal] ''m'' denasal_labial =
     ([''m'' \<mapsto> nasal], [Warning_inconsistent_update, Print_symbol ''m'' nasal])"
proof -
  have c: "contradicts nasal denasal_labial" by (simp add: contradicts_eval Phoneme_def)
  have s: "[''m'' \<mapsto> nasal] ''m'' = Some nasal" by simp
  from edit_conflict_skips_whole_update [OF c, of "[''m'' \<mapsto> nasal]" "''m''"] c s
  show ?thesis by blast
qed

text \<open>
  C2 as stated fails: the symbol \<open>m\<close> holds \<open>{nasal:+}\<close> and the delta is
  \<open>{nasal:-, labial:+}\<close>. The feature \<open>labial\<close> does not conflict, and it is not
  applied: after the merge \<open>m\<close> still holds \<open>{nasal:+}\<close> only.
\<close>

theorem edit_conflict_counterexample:
  "contradicts nasal denasal_labial \<and>
   getitem nasal ''labial'' = None \<and>
   getitem denasal_labial ''labial'' = Some True \<and>
   edit nasal denasal_labial = (nasal, [Warning_inconsistent_update]) \<and>
   getitem (fst (edit nasal denasal_labial)) ''labial'' = None \<and>
   fst (define_symbol [''m'' \<mapsto> nasal] ''m'' denasal_labial) ''m'' = Some nasal"
  by (simp add: contradicts_eval Phoneme_def edit_def getitem_def define_symbol_def Let_def)

end
